theory Spec2Isabelle
  imports Main "HOL-Library.Word"
begin

unbundle bit_operations_syntax

section \<open>The virtio crypto device manager (virtio_crypto_mgr.c)\<close>

subsection \<open>Data model\<close>

text \<open>
  Devices are C objects, compared by pointer in the source: a device is named by its
  address, and the objects live in a store from addresses to field values, so that two
  handles alias exactly when their addresses are equal.
\<close>

type_synonym addr = nat

text \<open>
  Modelled from the spec: \<open>struct virtio_crypto\<close> is declared in
  virtio_crypto_common.h, which is not part of the sources at hand. The record has the
  fields that virtio_crypto_mgr.c reads and writes. \<open>ref_count\<close> is an \<open>atomic_t\<close>
  (a 32-bit \<open>int\<close>, wrapping); \<open>status\<close> is a machine word of which one bit mask
  means "started"; \<open>dev_id\<close> is the spec's integer id and holds the value of the
  \<open>uint32_t\<close> counter it is assigned from; \<open>node\<close> is what
  \<open>dev_to_node(&dev->vdev->dev)\<close> returns for the device (negative: no node);
  \<open>owner\<close> is the address of the owning module.
\<close>

record virtio_crypto =
  status :: "64 word"
  ref_count :: "32 word"
  owner :: addr
  dev_id :: "32 word"
  node :: int

text \<open>
  The calls the manager makes to the kernel's module reference counting, in the order
  they are made. \<open>Try_module_get m ok\<close> records the answer the kernel gave.
\<close>

datatype kcall = Try_module_get addr bool | Module_put addr

text \<open>
  The manager's state: the objects, the global list \<open>virtio_crypto_table\<close> (the
  addresses linked into it, head first), the counter \<open>num_devices\<close>, and the
  environment: which modules the kernel currently allows to be pinned, and the trace of
  module calls.
\<close>

record devmgr =
  objs :: "addr \<Rightarrow> virtio_crypto"
  virtio_crypto_table :: "addr list"
  num_devices :: "32 word"
  module_live :: "addr \<Rightarrow> bool"
  kcalls :: "kcall list"

definition VIRTIO_CRYPTO_MAX_DEVICES :: "32 word" where
  "VIRTIO_CRYPTO_MAX_DEVICES = 32"

text \<open>The errno values of the kernel (errno-base.h).\<close>

definition EFAULT :: int where
  "EFAULT = 14"

definition EEXIST :: int where
  "EEXIST = 17"

text \<open>
  The state at module load: \<open>LIST_HEAD\<close> makes an empty list and the static counter
  is zero. The objects and the environment are whatever they are.
\<close>

definition empty_mgr :: "(addr \<Rightarrow> virtio_crypto) \<Rightarrow> (addr \<Rightarrow> bool) \<Rightarrow> devmgr" where
  "empty_mgr h live =
     \<lparr>objs = h, virtio_crypto_table = [], num_devices = 0, module_live = live, kcalls = []\<rparr>"

subsection \<open>Registry: add and remove\<close>

text \<open>
  The \<open>list_for_each\<close> loop of \<open>virtcrypto_devmgr_add_dev\<close>: true when some
  entry of the list is the given pointer.
\<close>

fun table_has :: "addr list \<Rightarrow> addr \<Rightarrow> bool" where
  "table_has [] vcrypto_dev = False"
| "table_has (ptr # itr) vcrypto_dev =
     (if ptr = vcrypto_dev then True else table_has itr vcrypto_dev)"

text \<open>
  \<open>virtcrypto_devmgr_add_dev\<close>: the capacity test comes first and is an equality test
  on the counter; then the duplicate scan; then the three writes. The id is the value of
  the counter before its increment.
\<close>

definition virtcrypto_devmgr_add_dev :: "devmgr \<Rightarrow> addr \<Rightarrow> int \<times> devmgr" where
  "virtcrypto_devmgr_add_dev s vcrypto_dev =
     (if num_devices s = VIRTIO_CRYPTO_MAX_DEVICES then (- EFAULT, s)
      else if table_has (virtio_crypto_table s) vcrypto_dev then (- EEXIST, s)
      else (0, s\<lparr>objs := (objs s)(vcrypto_dev :=
                      (objs s vcrypto_dev)\<lparr>ref_count := 0, dev_id := num_devices s\<rparr>),
                  virtio_crypto_table := virtio_crypto_table s @ [vcrypto_dev],
                  num_devices := num_devices s + 1\<rparr>))"

text \<open>
  \<open>virtcrypto_devmgr_rm_dev\<close>: \<open>list_del\<close> unlinks the node and the counter is
  decremented; the device's fields are not touched. \<open>list_del\<close> on a node that is not
  linked follows stale or poisoned pointers (a kernel fault): the model has no state
  for that and returns \<open>None\<close>.
\<close>

definition virtcrypto_devmgr_rm_dev :: "devmgr \<Rightarrow> addr \<Rightarrow> devmgr option" where
  "virtcrypto_devmgr_rm_dev s vcrypto_dev =
     (if vcrypto_dev \<in> set (virtio_crypto_table s)
      then Some (s\<lparr>virtio_crypto_table := remove1 vcrypto_dev (virtio_crypto_table s),
                   num_devices := num_devices s - 1\<rparr>)
      else None)"

subsection \<open>Reference counting\<close>

text \<open>
  The kernel's \<open>try_module_get\<close> and \<open>module_put\<close>, as far as the manager sees
  them: the first answers whether the module could be pinned, both are recorded in the
  trace.
\<close>

definition try_module_get :: "devmgr \<Rightarrow> addr \<Rightarrow> bool \<times> devmgr" where
  "try_module_get s m =
     (module_live s m, s\<lparr>kcalls := kcalls s @ [Try_module_get m (module_live s m)]\<rparr>)"

definition module_put :: "devmgr \<Rightarrow> addr \<Rightarrow> devmgr" where
  "module_put s m = s\<lparr>kcalls := kcalls s @ [Module_put m]\<rparr>"

text \<open>\<open>atomic_add_return\<close> and \<open>atomic_sub_return\<close> on the device's counter.\<close>

definition atomic_add_return :: "32 word \<Rightarrow> devmgr \<Rightarrow> addr \<Rightarrow> 32 word \<times> devmgr" where
  "atomic_add_return i s d =
     (ref_count (objs s d) + i,
      s\<lparr>objs := (objs s)(d := (objs s d)\<lparr>ref_count := ref_count (objs s d) + i\<rparr>)\<rparr>)"

definition atomic_sub_return :: "32 word \<Rightarrow> devmgr \<Rightarrow> addr \<Rightarrow> 32 word \<times> devmgr" where
  "atomic_sub_return i s d =
     (ref_count (objs s d) - i,
      s\<lparr>objs := (objs s)(d := (objs s d)\<lparr>ref_count := ref_count (objs s d) - i\<rparr>)\<rparr>)"

definition virtcrypto_dev_in_use :: "virtio_crypto \<Rightarrow> bool" where
  "virtcrypto_dev_in_use vcrypto_dev = (ref_count vcrypto_dev \<noteq> 0)"

text \<open>
  \<open>virtcrypto_dev_get\<close>: the increment is done first and stays whatever
  \<open>try_module_get\<close> answers.
\<close>

definition virtcrypto_dev_get :: "devmgr \<Rightarrow> addr \<Rightarrow> int \<times> devmgr" where
  "virtcrypto_dev_get s vcrypto_dev =
     (case atomic_add_return 1 s vcrypto_dev of
        (c, s1) \<Rightarrow>
          if c = 1 then
            (case try_module_get s1 (owner (objs s1 vcrypto_dev)) of
               (ok, s2) \<Rightarrow> if \<not> ok then (- EFAULT, s2) else (0, s2))
          else (0, s1))"

definition virtcrypto_dev_put :: "devmgr \<Rightarrow> addr \<Rightarrow> devmgr" where
  "virtcrypto_dev_put s vcrypto_dev =
     (case atomic_sub_return 1 s vcrypto_dev of
        (c, s1) \<Rightarrow>
          if c = 0 then module_put s1 (owner (objs s1 vcrypto_dev)) else s1)"

subsection \<open>Started devices and selection\<close>

text \<open>
  \<open>virtcrypto_dev_started\<close> returns \<open>status & VIRTIO_CRYPTO_S_STARTED\<close> as an
  \<open>int\<close>, that is its low 32 bits. The macro is defined in the header that is not at
  hand, so the mask is the parameter \<open>S_STARTED\<close> of every function that uses it.
\<close>

definition virtcrypto_dev_started :: "64 word \<Rightarrow> virtio_crypto \<Rightarrow> 32 word" where
  "virtcrypto_dev_started S_STARTED vcrypto_dev = ucast (status vcrypto_dev AND S_STARTED)"

text \<open>
  The first loop of \<open>virtcrypto_get_dev_node\<close>, over the rest of the list, with the
  current values of \<open>vcrypto_dev\<close> (\<open>None\<close> for \<open>NULL\<close>) and \<open>best\<close>. The
  counter is read as an \<open>int\<close> and converted to \<open>unsigned long\<close> (sign extension);
  the comparison is unsigned and strict.
\<close>

fun least_loaded ::
  "64 word \<Rightarrow> (addr \<Rightarrow> virtio_crypto) \<Rightarrow> int \<Rightarrow> addr list \<Rightarrow> addr option \<Rightarrow> 64 word
     \<Rightarrow> addr option" where
  "least_loaded S_STARTED h nd [] vcrypto_dev best = vcrypto_dev"
| "least_loaded S_STARTED h nd (tmp_dev # rest) vcrypto_dev best =
     (if (nd = node (h tmp_dev) \<or> node (h tmp_dev) < 0)
         \<and> virtcrypto_dev_started S_STARTED (h tmp_dev) \<noteq> 0
      then (let ctr = (scast (ref_count (h tmp_dev)) :: 64 word)
            in if best > ctr then least_loaded S_STARTED h nd rest (Some tmp_dev) ctr
               else least_loaded S_STARTED h nd rest vcrypto_dev best)
      else least_loaded S_STARTED h nd rest vcrypto_dev best)"

text \<open>The second loop: the first started device, whatever its node and load.\<close>

fun any_started :: "64 word \<Rightarrow> (addr \<Rightarrow> virtio_crypto) \<Rightarrow> addr list \<Rightarrow> addr option" where
  "any_started S_STARTED h [] = None"
| "any_started S_STARTED h (tmp_dev # rest) =
     (if virtcrypto_dev_started S_STARTED (h tmp_dev) \<noteq> 0 then Some tmp_dev
      else any_started S_STARTED h rest)"

text \<open>
  The search of \<open>virtcrypto_get_dev_node\<close> (both loops): \<open>best\<close> starts at
  \<open>~0\<close>, all ones.
\<close>

definition find_dev_node :: "64 word \<Rightarrow> devmgr \<Rightarrow> int \<Rightarrow> addr option" where
  "find_dev_node S_STARTED s nd =
     (case least_loaded S_STARTED (objs s) nd (virtio_crypto_table s) None (- 1) of
        Some d \<Rightarrow> Some d
      | None \<Rightarrow> any_started S_STARTED (objs s) (virtio_crypto_table s))"

text \<open>
  \<open>virtcrypto_get_dev_node\<close>: the result of \<open>virtcrypto_dev_get\<close> is dropped
  and the device found is returned.
\<close>

definition virtcrypto_get_dev_node :: "64 word \<Rightarrow> devmgr \<Rightarrow> int \<Rightarrow> addr option \<times> devmgr" where
  "virtcrypto_get_dev_node S_STARTED s nd =
     (case find_dev_node S_STARTED s nd of
        None \<Rightarrow> (None, s)
      | Some vcrypto_dev \<Rightarrow> (Some vcrypto_dev, snd (virtcrypto_dev_get s vcrypto_dev)))"

subsection \<open>Start\<close>

text \<open>
  \<open>virtcrypto_dev_start\<close>; \<open>algs_ret\<close> is what the external
  \<open>virtio_crypto_algs_register()\<close> returned (zero: success).
\<close>

definition virtcrypto_dev_start :: "64 word \<Rightarrow> int \<Rightarrow> devmgr \<Rightarrow> addr \<Rightarrow> int \<times> devmgr" where
  "virtcrypto_dev_start S_STARTED algs_ret s vcrypto =
     (if algs_ret \<noteq> 0 then (- EFAULT, s)
      else (0, s\<lparr>objs := (objs s)(vcrypto :=
                   (objs s vcrypto)\<lparr>status := status (objs s vcrypto) OR S_STARTED\<rparr>)\<rparr>))"

subsection \<open>Sequences of calls\<close>

text \<open>Registering the devices of a list one after the other; the return values are kept.\<close>

fun add_devs :: "devmgr \<Rightarrow> addr list \<Rightarrow> int list \<times> devmgr" where
  "add_devs s [] = ([], s)"
| "add_devs s (d # ds) =
     (case virtcrypto_devmgr_add_dev s d of
        (r, s1) \<Rightarrow> (case add_devs s1 ds of (rs, s2) \<Rightarrow> (r # rs, s2)))"

text \<open>
  A driver's calls to the registry, run in order. A failed add leaves the state as it
  is; a remove of a device that is not linked ends the run with \<open>None\<close>.
\<close>

datatype mgr_op = Add_dev addr | Rm_dev addr

fun run_ops :: "devmgr \<Rightarrow> mgr_op list \<Rightarrow> devmgr option" where
  "run_ops s [] = Some s"
| "run_ops s (Add_dev d # ops) = run_ops (snd (virtcrypto_devmgr_add_dev s d)) ops"
| "run_ops s (Rm_dev d # ops) =
     (case virtcrypto_devmgr_rm_dev s d of
        None \<Rightarrow> None
      | Some s1 \<Rightarrow> run_ops s1 ops)"

text \<open>
  The runs in which every remove takes out the device at the tail of the table, that
  is the one registered last among those still present.
\<close>

fun tail_removals :: "devmgr \<Rightarrow> mgr_op list \<Rightarrow> bool" where
  "tail_removals s [] = True"
| "tail_removals s (Add_dev d # ops) =
     tail_removals (snd (virtcrypto_devmgr_add_dev s d)) ops"
| "tail_removals s (Rm_dev d # ops) =
     (virtio_crypto_table s \<noteq> [] \<and> d = last (virtio_crypto_table s) \<and>
      (case virtcrypto_devmgr_rm_dev s d of
         None \<Rightarrow> False
       | Some s1 \<Rightarrow> tail_removals s1 ops))"

text \<open>
  Acquires and releases of one device, run in order: the return values of the acquires,
  and the values \<open>ref_count\<close> goes through (before the first call and after each).
\<close>

datatype ref_op = Dev_get | Dev_put

fun run_refs :: "devmgr \<Rightarrow> addr \<Rightarrow> ref_op list \<Rightarrow> int list \<times> devmgr" where
  "run_refs s d [] = ([], s)"
| "run_refs s d (Dev_get # ops) =
     (case virtcrypto_dev_get s d of
        (r, s1) \<Rightarrow> (case run_refs s1 d ops of (rs, s2) \<Rightarrow> (r # rs, s2)))"
| "run_refs s d (Dev_put # ops) = run_refs (virtcrypto_dev_put s d) d ops"

fun ref_trace :: "devmgr \<Rightarrow> addr \<Rightarrow> ref_op list \<Rightarrow> 32 word list" where
  "ref_trace s d [] = [ref_count (objs s d)]"
| "ref_trace s d (Dev_get # ops) =
     ref_count (objs s d) # ref_trace (snd (virtcrypto_dev_get s d)) d ops"
| "ref_trace s d (Dev_put # ops) =
     ref_count (objs s d) # ref_trace (virtcrypto_dev_put s d) d ops"

text \<open>How often a list of values steps from \<open>a\<close> directly to \<open>b\<close>.\<close>

fun steps :: "'a \<Rightarrow> 'a \<Rightarrow> 'a list \<Rightarrow> nat" where
  "steps a b (x # y # zs) = (if x = a \<and> y = b then 1 else 0) + steps a b (y # zs)"
| "steps a b zs = 0"

text \<open>
  In a trace: the requests to pin module \<open>m\<close>, the pins of \<open>m\<close> that were
  granted, and its unpins.
\<close>

fun is_try :: "addr \<Rightarrow> kcall \<Rightarrow> bool" where
  "is_try m (Try_module_get m' ok) = (m' = m)"
| "is_try m (Module_put m') = False"

fun is_pin :: "addr \<Rightarrow> kcall \<Rightarrow> bool" where
  "is_pin m (Try_module_get m' ok) = (m' = m \<and> ok)"
| "is_pin m (Module_put m') = False"

fun is_unpin :: "addr \<Rightarrow> kcall \<Rightarrow> bool" where
  "is_unpin m (Try_module_get m' ok) = False"
| "is_unpin m (Module_put m') = (m' = m)"

definition pins_tried :: "addr \<Rightarrow> kcall list \<Rightarrow> nat" where
  "pins_tried m cs = length (filter (is_try m) cs)"

definition pins_taken :: "addr \<Rightarrow> kcall list \<Rightarrow> nat" where
  "pins_taken m cs = length (filter (is_pin m) cs)"

definition pins_released :: "addr \<Rightarrow> kcall list \<Rightarrow> nat" where
  "pins_released m cs = length (filter (is_unpin m) cs)"

subsection \<open>Properties of states and devices used in the statements\<close>

text \<open>
  A device is eligible for node \<open>nd\<close> when it is started and sits on that node or on
  no node; \<open>load\<close> is its reference count as the \<open>int\<close> it is.
\<close>

definition is_started :: "64 word \<Rightarrow> devmgr \<Rightarrow> addr \<Rightarrow> bool" where
  "is_started S_STARTED s d = (virtcrypto_dev_started S_STARTED (objs s d) \<noteq> 0)"

definition eligible :: "64 word \<Rightarrow> devmgr \<Rightarrow> int \<Rightarrow> addr \<Rightarrow> bool" where
  "eligible S_STARTED s nd d =
     (is_started S_STARTED s d \<and> (node (objs s d) = nd \<or> node (objs s d) < 0))"

definition load :: "devmgr \<Rightarrow> addr \<Rightarrow> int" where
  "load s d = sint (ref_count (objs s d))"

text \<open>The same count as the first loop compares it: converted to \<open>unsigned long\<close>.\<close>

definition ctr :: "devmgr \<Rightarrow> addr \<Rightarrow> 64 word" where
  "ctr s p = scast (ref_count (objs s p))"

text \<open>
  The shape of the registry that adds alone build: the counter is the length of the
  table, within the capacity, no device is linked twice, and the devices carry the ids
  0, 1, 2, ... in table order.
\<close>

definition ids_in_order :: "devmgr \<Rightarrow> bool" where
  "ids_in_order s =
     (num_devices s = of_nat (length (virtio_crypto_table s)) \<and>
      length (virtio_crypto_table s) \<le> 32 \<and>
      distinct (virtio_crypto_table s) \<and>
      map (\<lambda>p. dev_id (objs s p)) (virtio_crypto_table s) =
        map of_nat [0..<length (virtio_crypto_table s)])"

text \<open>A concrete device and a concrete empty registry, for running the code.\<close>

definition a_dev :: "int \<Rightarrow> virtio_crypto" where
  "a_dev nd = \<lparr>status = 0, ref_count = 0, owner = 7, dev_id = 0, node = nd\<rparr>"

definition mgr0 :: "bool \<Rightarrow> devmgr" where
  "mgr0 live = empty_mgr (\<lambda>d. a_dev (int d mod 3 - 1)) (\<lambda>m. live)"

text \<open>One device on node 1, registered and started, whose module cannot be pinned.\<close>

definition started1 :: devmgr where
  "started1 =
     snd (virtcrypto_dev_start 2 0 (snd (virtcrypto_devmgr_add_dev (mgr0 False) 5)) 5)"

text \<open>
  Three started devices: 4 on node 0, 5 on node 1, 6 on no node; device 4 has one holder.
\<close>

definition pool3 :: devmgr where
  "pool3 =
     snd (virtcrypto_dev_get
       (snd (virtcrypto_dev_start 2 0
         (snd (virtcrypto_dev_start 2 0
           (snd (virtcrypto_dev_start 2 0
             (snd (add_devs (mgr0 True) [4, 5, 6])) 4)) 5)) 6)) 4)"

text \<open>The registry after 32 devices were registered.\<close>

definition full32 :: devmgr where
  "full32 = snd (add_devs (mgr0 True) [1..<33])"

text \<open>Two devices registered, the first removed again.\<close>

definition after_rm :: devmgr where
  "after_rm = the (run_ops (mgr0 True) [Add_dev 1, Add_dev 2, Rm_dev 1])"

text \<open>Two devices registered, the second removed again, a third registered.\<close>

definition after_tail_rm :: devmgr where
  "after_tail_rm = the (run_ops (mgr0 True) [Add_dev 1, Add_dev 2, Rm_dev 2, Add_dev 3])"

text \<open>Three devices registered, none started.\<close>

definition unstarted3 :: devmgr where
  "unstarted3 = snd (add_devs (mgr0 True) [4, 5, 6])"

text \<open>Three acquires and three releases of one device, paired.\<close>

definition paired_ops :: "ref_op list" where
  "paired_ops = [Dev_get, Dev_get, Dev_put, Dev_put, Dev_get, Dev_put]"

text \<open>
  Devices 5 (node 1) and 4 (node 0) registered and started; a client selects for node 0
  and holds device 4.
\<close>

definition held4 :: devmgr where
  "held4 =
     snd (virtcrypto_get_dev_node 2
       (snd (virtcrypto_dev_start 2 0
         (snd (virtcrypto_dev_start 2 0
           (snd (add_devs (mgr0 True) [5, 4])) 5)) 4)) 0)"

text \<open>
  Then the driver removes device 4 and registers it again, which sets its count to 0,
  and the client releases the reference it holds.
\<close>

definition stale_release :: devmgr where
  "stale_release =
     virtcrypto_dev_put
       (snd (virtcrypto_devmgr_add_dev (the (virtcrypto_devmgr_rm_dev held4 4)) 4)) 4"

section \<open>Properties\<close>

subsection \<open>Errors of add leave the registry as it was\<close>

text \<open>
  Claim C10. Whenever \<open>virtcrypto_devmgr_add_dev\<close> returns an error (which is
  \<open>-EFAULT\<close> for the capacity limit or \<open>-EEXIST\<close> for a device already in the
  table), the whole state is the one before the call: the table with its order, the
  counter \<open>num_devices\<close>, and every field of every device, so also the
  \<open>ref_count\<close> and \<open>dev_id\<close> of the device passed in.
\<close>

theorem add_dev_error_atomic:
  "fst (virtcrypto_devmgr_add_dev s d) \<noteq> 0 \<longrightarrow>
     snd (virtcrypto_devmgr_add_dev s d) = s \<and>
     (fst (virtcrypto_devmgr_add_dev s d) = - EFAULT \<or>
      fst (virtcrypto_devmgr_add_dev s d) = - EEXIST)"
  by (simp add: virtcrypto_devmgr_add_dev_def)

theorem add_dev_error_atomic_witness:
  "fst (virtcrypto_devmgr_add_dev (snd (virtcrypto_devmgr_add_dev (mgr0 True) 5)) 5) = - EEXIST \<and>
   snd (virtcrypto_devmgr_add_dev (snd (virtcrypto_devmgr_add_dev (mgr0 True) 5)) 5) =
     snd (virtcrypto_devmgr_add_dev (mgr0 True) 5)"
  using add_dev_error_atomic [of "snd (virtcrypto_devmgr_add_dev (mgr0 True) 5)" 5]
  by (simp add: virtcrypto_devmgr_add_dev_def mgr0_def empty_mgr_def
      VIRTIO_CRYPTO_MAX_DEVICES_def EFAULT_def EEXIST_def)

subsection \<open>A failed pin keeps the increment\<close>

text \<open>
  Claim C2. For a device whose \<open>ref_count\<close> is 0 and whose owning module cannot be
  pinned, \<open>virtcrypto_dev_get\<close> returns \<open>-EFAULT\<close> (the pin failure) and the
  \<open>ref_count\<close> is 1 afterwards: the increment is not rolled back.
\<close>

theorem dev_get_pin_failure_keeps_increment:
  "ref_count (objs s d) = 0 \<and> \<not> module_live s (owner (objs s d)) \<longrightarrow>
     fst (virtcrypto_dev_get s d) = - EFAULT \<and>
     ref_count (objs (snd (virtcrypto_dev_get s d)) d) = 1"
  by (simp add: virtcrypto_dev_get_def atomic_add_return_def try_module_get_def)

theorem dev_get_pin_failure_keeps_increment_witness:
  "ref_count (objs (mgr0 False) 5) = 0 \<and>
   \<not> module_live (mgr0 False) (owner (objs (mgr0 False) 5)) \<and>
   fst (virtcrypto_dev_get (mgr0 False) 5) = - 14 \<and>
   ref_count (objs (snd (virtcrypto_dev_get (mgr0 False) 5)) 5) = 1"
  using dev_get_pin_failure_keeps_increment [of "mgr0 False" 5]
  by (simp add: mgr0_def empty_mgr_def a_dev_def EFAULT_def)

subsection \<open>Start\<close>

text \<open>
  Claim C9. When the external algorithm registration fails (returns non-zero),
  \<open>virtcrypto_dev_start\<close> returns the error \<open>-EFAULT\<close> and changes nothing, so
  the status of the device is as before. When the registration succeeds, it returns 0
  and the started mask is set in the status, so that the device is started afterwards.
  The mask comes from the absent header; to count as started it has to show in the
  \<open>int\<close> that \<open>virtcrypto_dev_started\<close> returns, that is, have a bit among the
  low 32.
\<close>

theorem dev_start_result:
  "(algs_ret \<noteq> 0 \<longrightarrow>
      fst (virtcrypto_dev_start m algs_ret s d) = - EFAULT \<and>
      snd (virtcrypto_dev_start m algs_ret s d) = s) \<and>
   (algs_ret = 0 \<longrightarrow>
      fst (virtcrypto_dev_start m algs_ret s d) = 0 \<and>
      status (objs (snd (virtcrypto_dev_start m algs_ret s d)) d) = status (objs s d) OR m \<and>
      (ucast m \<noteq> (0 :: 32 word) \<longrightarrow>
         is_started m (snd (virtcrypto_dev_start m algs_ret s d)) d))"
  by (simp add: virtcrypto_dev_start_def is_started_def virtcrypto_dev_started_def)

theorem dev_start_result_witness:
  "virtcrypto_dev_start 2 (- 12) (mgr0 True) 5 = (- 14, mgr0 True) \<and>
   \<not> is_started 2 (mgr0 True) 5 \<and>
   fst (virtcrypto_dev_start 2 0 (mgr0 True) 5) = 0 \<and>
   status (objs (snd (virtcrypto_dev_start 2 0 (mgr0 True) 5)) 5) = 2 \<and>
   is_started 2 (snd (virtcrypto_dev_start 2 0 (mgr0 True) 5)) 5"
  using dev_start_result [of "- 12" 2 "mgr0 True" 5] dev_start_result [of 0 2 "mgr0 True" 5]
  by (simp add: prod_eq_iff EFAULT_def is_started_def virtcrypto_dev_started_def
      mgr0_def empty_mgr_def a_dev_def)

subsection \<open>Selection\<close>

text \<open>
  Claim C3. When the search of \<open>virtcrypto_get_dev_node\<close> finds a device and the
  acquire made on the caller's behalf fails with the pin failure,
  \<open>virtcrypto_get_dev_node\<close> still returns that device: the result is neither
  \<open>NULL\<close> nor another device, the search is not run again, and the state is the one
  the failed acquire left (the count incremented).
\<close>

theorem get_dev_node_pin_failure:
  "find_dev_node m s nd = Some d \<and> fst (virtcrypto_dev_get s d) = - EFAULT \<longrightarrow>
     virtcrypto_get_dev_node m s nd = (Some d, snd (virtcrypto_dev_get s d)) \<and>
     ref_count (objs (snd (virtcrypto_get_dev_node m s nd)) d) = ref_count (objs s d) + 1"
  by (simp add: virtcrypto_get_dev_node_def virtcrypto_dev_get_def atomic_add_return_def
      try_module_get_def)

theorem get_dev_node_pin_failure_witness:
  "find_dev_node 2 started1 1 = Some 5 \<and> fst (virtcrypto_dev_get started1 5) = - EFAULT \<and>
   virtcrypto_get_dev_node 2 started1 1 = (Some 5, snd (virtcrypto_dev_get started1 5)) \<and>
   ref_count (objs (snd (virtcrypto_get_dev_node 2 started1 1)) 5) =
     ref_count (objs started1 5) + 1"
proof -
  have f: "find_dev_node 2 started1 1 = Some 5"
    by (simp add: started1_def find_dev_node_def virtcrypto_dev_start_def
        virtcrypto_devmgr_add_dev_def mgr0_def empty_mgr_def a_dev_def
        VIRTIO_CRYPTO_MAX_DEVICES_def virtcrypto_dev_started_def)
  have g: "fst (virtcrypto_dev_get started1 5) = - EFAULT"
    by (simp add: started1_def virtcrypto_dev_get_def atomic_add_return_def
        try_module_get_def virtcrypto_dev_start_def
        virtcrypto_devmgr_add_dev_def mgr0_def empty_mgr_def a_dev_def
        VIRTIO_CRYPTO_MAX_DEVICES_def)
  show ?thesis
    using get_dev_node_pin_failure [of 2 started1 1 5] f g by blast
qed

subsection \<open>Selection: the two loops\<close>

text \<open>
  A non-negative \<open>int\<close> keeps its value and its order when it is converted to
  \<open>unsigned long\<close>, and stays below \<open>~0\<close>.
\<close>

lemma sint32_upper: "sint (x :: 32 word) < 2147483648"
  using sint_lt [of x] by simp

lemma uint_scast_nonneg:
  assumes "0 \<le> sint (x :: 32 word)"
  shows "uint (scast x :: 64 word) = sint x"
proof -
  have "sint x < 2 ^ LENGTH(64)" using sint32_upper [of x] by simp
  with assms have "take_bit LENGTH(64) (sint x) = sint x"
    by (rule take_bit_int_eq_self)
  then show ?thesis
    unfolding scast_eq uint_word_of_int_eq .
qed

lemma uint_max64: "uint (- 1 :: 64 word) = 18446744073709551615"
  by (simp add: unsigned_minus_1_eq_mask mask_eq_exp_minus_1)

lemma scast_less_max:
  assumes "0 \<le> sint (x :: 32 word)"
  shows "(scast x :: 64 word) < - 1"
proof -
  have "uint (scast x :: 64 word) < 2147483648"
    using uint_scast_nonneg [OF assms] sint32_upper [of x] by simp
  then have "uint (scast x :: 64 word) < uint (- 1 :: 64 word)"
    unfolding uint_max64 by linarith
  then show ?thesis by (simp only: word_less_def)
qed

lemma scast_less_iff:
  "0 \<le> sint (x :: 32 word) \<Longrightarrow> 0 \<le> sint (y :: 32 word) \<Longrightarrow>
     ((scast x :: 64 word) < scast y) = (sint x < sint y)"
  by (simp add: word_less_def uint_scast_nonneg)

lemma scast_le_iff:
  "0 \<le> sint (x :: 32 word) \<Longrightarrow> 0 \<le> sint (y :: 32 word) \<Longrightarrow>
     ((scast x :: 64 word) \<le> scast y) = (sint x \<le> sint y)"
  by (simp add: word_le_def uint_scast_nonneg)

text \<open>The fallback loop returns the first started device of the list, if there is one.\<close>

lemma any_started_None_iff:
  "(any_started m (objs s) xs = None) = (\<forall>p\<in>set xs. \<not> is_started m s p)"
  by (induction xs) (auto simp: is_started_def)

lemma any_started_first:
  "any_started m (objs s) xs = Some d \<Longrightarrow>
     \<exists>pre post. xs = pre @ d # post \<and> is_started m s d \<and> (\<forall>p\<in>set pre. \<not> is_started m s p)"
proof (induction xs)
  case Nil
  then show ?case by simp
next
  case (Cons x xs)
  show ?case
  proof (cases "is_started m s x")
    case True
    with Cons.prems have "x = d" by (simp add: is_started_def)
    with True have "x # xs = [] @ d # xs \<and> is_started m s d \<and> (\<forall>p\<in>set []. \<not> is_started m s p)"
      by simp
    then show ?thesis by blast
  next
    case False
    with Cons.prems have "any_started m (objs s) xs = Some d" by (simp add: is_started_def)
    from Cons.IH [OF this] obtain pre post where
      "xs = pre @ d # post" "is_started m s d" "\<forall>p\<in>set pre. \<not> is_started m s p" by blast
    with False have "x # xs = (x # pre) @ d # post \<and> is_started m s d \<and>
        (\<forall>p\<in>set (x # pre). \<not> is_started m s p)" by simp
    then show ?thesis by blast
  qed
qed

text \<open>
  The first loop, started with the running choice \<open>acc\<close> and bound \<open>best\<close>: when
  no eligible device of the list is below the bound the choice stays; otherwise the
  result is the first of the eligible devices with the least converted count.
\<close>

lemma least_loaded_Cons:
  "least_loaded m (objs s) nd (x # xs) acc best =
     (if eligible m s nd x \<and> ctr s x < best
      then least_loaded m (objs s) nd xs (Some x) (ctr s x)
      else least_loaded m (objs s) nd xs acc best)"
  by (auto simp: eligible_def is_started_def ctr_def Let_def)

lemma least_loaded_result:
  "(if \<exists>p\<in>set xs. eligible m s nd p \<and> ctr s p < best
    then \<exists>pre d post. xs = pre @ d # post \<and>
           least_loaded m (objs s) nd xs acc best = Some d \<and>
           eligible m s nd d \<and> ctr s d < best \<and>
           (\<forall>p\<in>set pre. eligible m s nd p \<longrightarrow> ctr s d < ctr s p) \<and>
           (\<forall>p\<in>set post. eligible m s nd p \<longrightarrow> ctr s d \<le> ctr s p)
    else least_loaded m (objs s) nd xs acc best = acc)"
proof (induction xs arbitrary: acc best)
  case Nil
  then show ?case by simp
next
  case (Cons x xs)
  show ?case
  proof (cases "eligible m s nd x \<and> ctr s x < best")
    case True
    then have r: "least_loaded m (objs s) nd (x # xs) acc best =
        least_loaded m (objs s) nd xs (Some x) (ctr s x)"
      by (subst least_loaded_Cons) simp
    show ?thesis
    proof (cases "\<exists>p\<in>set xs. eligible m s nd p \<and> ctr s p < ctr s x")
      case better: True
      with Cons.IH [of "ctr s x" "Some x"] obtain pre d post where
        h: "xs = pre @ d # post"
           "least_loaded m (objs s) nd xs (Some x) (ctr s x) = Some d"
           "eligible m s nd d" "ctr s d < ctr s x"
           "\<forall>p\<in>set pre. eligible m s nd p \<longrightarrow> ctr s d < ctr s p"
           "\<forall>p\<in>set post. eligible m s nd p \<longrightarrow> ctr s d \<le> ctr s p"
        by auto
      from r h(2) have e: "least_loaded m (objs s) nd (x # xs) acc best = Some d"
        by (simp del: least_loaded.simps)
      from e h(1,3-) True have "x # xs = (x # pre) @ d # post \<and>
           least_loaded m (objs s) nd (x # xs) acc best = Some d \<and>
           eligible m s nd d \<and> ctr s d < best \<and>
           (\<forall>p\<in>set (x # pre). eligible m s nd p \<longrightarrow> ctr s d < ctr s p) \<and>
           (\<forall>p\<in>set post. eligible m s nd p \<longrightarrow> ctr s d \<le> ctr s p)"
        by (auto simp del: least_loaded.simps)
      then have "\<exists>pre d post. x # xs = pre @ d # post \<and>
           least_loaded m (objs s) nd (x # xs) acc best = Some d \<and>
           eligible m s nd d \<and> ctr s d < best \<and>
           (\<forall>p\<in>set pre. eligible m s nd p \<longrightarrow> ctr s d < ctr s p) \<and>
           (\<forall>p\<in>set post. eligible m s nd p \<longrightarrow> ctr s d \<le> ctr s p)"
        by blast
      with True show ?thesis by simp
    next
      case nobetter: False
      with Cons.IH [of "ctr s x" "Some x"]
      have "least_loaded m (objs s) nd xs (Some x) (ctr s x) = Some x" by simp
      with r have e: "least_loaded m (objs s) nd (x # xs) acc best = Some x"
        by (simp del: least_loaded.simps)
      from e nobetter True have "x # xs = [] @ x # xs \<and>
           least_loaded m (objs s) nd (x # xs) acc best = Some x \<and>
           eligible m s nd x \<and> ctr s x < best \<and>
           (\<forall>p\<in>set []. eligible m s nd p \<longrightarrow> ctr s x < ctr s p) \<and>
           (\<forall>p\<in>set xs. eligible m s nd p \<longrightarrow> ctr s x \<le> ctr s p)"
        by (auto simp del: least_loaded.simps)
      then have "\<exists>pre d post. x # xs = pre @ d # post \<and>
           least_loaded m (objs s) nd (x # xs) acc best = Some d \<and>
           eligible m s nd d \<and> ctr s d < best \<and>
           (\<forall>p\<in>set pre. eligible m s nd p \<longrightarrow> ctr s d < ctr s p) \<and>
           (\<forall>p\<in>set post. eligible m s nd p \<longrightarrow> ctr s d \<le> ctr s p)"
        by blast
      with True show ?thesis by simp
    qed
  next
    case False
    then have r: "least_loaded m (objs s) nd (x # xs) acc best =
        least_loaded m (objs s) nd xs acc best"
      by (subst least_loaded_Cons) auto
    show ?thesis
    proof (cases "\<exists>p\<in>set xs. eligible m s nd p \<and> ctr s p < best")
      case better: True
      with Cons.IH [of best acc] obtain pre d post where
        h: "xs = pre @ d # post"
           "least_loaded m (objs s) nd xs acc best = Some d"
           "eligible m s nd d" "ctr s d < best"
           "\<forall>p\<in>set pre. eligible m s nd p \<longrightarrow> ctr s d < ctr s p"
           "\<forall>p\<in>set post. eligible m s nd p \<longrightarrow> ctr s d \<le> ctr s p"
        by auto
      from r h(2) have e: "least_loaded m (objs s) nd (x # xs) acc best = Some d"
        by (simp del: least_loaded.simps)
      from e h(1,3-) False have "x # xs = (x # pre) @ d # post \<and>
           least_loaded m (objs s) nd (x # xs) acc best = Some d \<and>
           eligible m s nd d \<and> ctr s d < best \<and>
           (\<forall>p\<in>set (x # pre). eligible m s nd p \<longrightarrow> ctr s d < ctr s p) \<and>
           (\<forall>p\<in>set post. eligible m s nd p \<longrightarrow> ctr s d \<le> ctr s p)"
        by (auto simp del: least_loaded.simps)
      then have "\<exists>pre d post. x # xs = pre @ d # post \<and>
           least_loaded m (objs s) nd (x # xs) acc best = Some d \<and>
           eligible m s nd d \<and> ctr s d < best \<and>
           (\<forall>p\<in>set pre. eligible m s nd p \<longrightarrow> ctr s d < ctr s p) \<and>
           (\<forall>p\<in>set post. eligible m s nd p \<longrightarrow> ctr s d \<le> ctr s p)"
        by blast
      with better show ?thesis by auto
    next
      case nobetter: False
      with Cons.IH [of best acc]
      have "least_loaded m (objs s) nd xs acc best = acc" by simp
      with r have e: "least_loaded m (objs s) nd (x # xs) acc best = acc"
        by (simp del: least_loaded.simps)
      from e nobetter False show ?thesis by (auto simp del: least_loaded.simps)
    qed
  qed
qed

lemma fst_get_dev_node: "fst (virtcrypto_get_dev_node m s nd) = find_dev_node m s nd"
  by (simp add: virtcrypto_get_dev_node_def split: option.splits)

lemma status_dev_get: "status (objs (snd (virtcrypto_dev_get s d)) p) = status (objs s p)"
  by (simp add: virtcrypto_dev_get_def atomic_add_return_def try_module_get_def)

lemma is_started_get_dev_node:
  "is_started m (snd (virtcrypto_get_dev_node m s nd)) p = is_started m s p"
  by (simp add: virtcrypto_get_dev_node_def is_started_def virtcrypto_dev_started_def
      status_dev_get split: option.splits)

lemma least_loaded_None_Some:
  assumes "least_loaded m (objs s) nd xs None best = Some d"
  shows "d \<in> set xs \<and> eligible m s nd d"
proof -
  from least_loaded_result [of xs m s nd best None] assms
  obtain pre post where "xs = pre @ d # post" "eligible m s nd d"
    by (auto split: if_splits)
  then show ?thesis by simp
qed

lemma find_dev_node_None_iff:
  "(find_dev_node m s nd = None) = (\<forall>p\<in>set (virtio_crypto_table s). \<not> is_started m s p)"
proof (cases "least_loaded m (objs s) nd (virtio_crypto_table s) None (- 1)")
  case None
  then show ?thesis by (simp add: find_dev_node_def any_started_None_iff)
next
  case (Some d)
  from least_loaded_None_Some [OF this] have "d \<in> set (virtio_crypto_table s)" "is_started m s d"
    by (simp_all add: eligible_def)
  with Some show ?thesis by (auto simp: find_dev_node_def)
qed

lemma find_dev_node_Some:
  assumes "find_dev_node m s nd = Some d"
  shows "d \<in> set (virtio_crypto_table s) \<and> is_started m s d"
proof (cases "least_loaded m (objs s) nd (virtio_crypto_table s) None (- 1)")
  case None
  with assms have "any_started m (objs s) (virtio_crypto_table s) = Some d"
    by (simp add: find_dev_node_def)
  from any_started_first [OF this] show ?thesis by auto
next
  case (Some e)
  with assms have "e = d" by (simp add: find_dev_node_def)
  with least_loaded_None_Some [OF Some] show ?thesis by (simp add: eligible_def)
qed

lemma pool3_select: "fst (virtcrypto_get_dev_node 2 pool3 0) = Some 6"
  by code_simp

text \<open>
  Claim C5. For every state and every node, \<open>virtcrypto_get_dev_node\<close> returns
  \<open>NULL\<close> exactly when no device of the table is started; and a device it returns
  is in the table and is started, before the call and after it.
\<close>

theorem get_dev_node_none_iff_no_started:
  "(fst (virtcrypto_get_dev_node m s nd) = None) =
     (\<forall>p\<in>set (virtio_crypto_table s). \<not> is_started m s p) \<and>
   (\<forall>d. fst (virtcrypto_get_dev_node m s nd) = Some d \<longrightarrow>
      d \<in> set (virtio_crypto_table s) \<and> is_started m s d \<and>
      is_started m (snd (virtcrypto_get_dev_node m s nd)) d)"
  by (simp add: fst_get_dev_node find_dev_node_None_iff is_started_get_dev_node
      find_dev_node_Some)

theorem get_dev_node_none_iff_no_started_witness:
  "fst (virtcrypto_get_dev_node 2 (snd (add_devs (mgr0 True) [4, 5, 6])) 0) = None \<and>
   fst (virtcrypto_get_dev_node 2 pool3 0) = Some 6 \<and>
   6 \<in> set (virtio_crypto_table pool3) \<and> is_started 2 pool3 6 \<and>
   is_started 2 (snd (virtcrypto_get_dev_node 2 pool3 0)) 6"
proof -
  let ?u = "snd (add_devs (mgr0 True) [4, 5, 6])"
  have "virtio_crypto_table ?u = [4, 5, 6]"
    by code_simp
  moreover have "\<not> is_started 2 ?u 4" "\<not> is_started 2 ?u 5" "\<not> is_started 2 ?u 6"
    by code_simp+
  ultimately have "\<forall>p\<in>set (virtio_crypto_table ?u). \<not> is_started 2 ?u p"
    by simp
  with get_dev_node_none_iff_no_started [of 2 ?u 0]
  have n: "fst (virtcrypto_get_dev_node 2 ?u 0) = None" by blast
  from get_dev_node_none_iff_no_started [of 2 pool3 0] pool3_select n
  show ?thesis by blast
qed

text \<open>
  Claim C4, as the code has it. In a state where the reference counts of the eligible
  devices are not negative:
  if some device of the table is eligible for the node (started, and on that node or
  on none), \<open>virtcrypto_get_dev_node\<close> returns an eligible device whose count is
  strictly below that of every eligible device before it in the table and at most that
  of every eligible device after it, that is, the first of those with the minimum
  count. If no device is eligible but some device is started, it returns the first
  started device of the table, whatever its count.
\<close>

theorem get_dev_node_least_loaded:
  assumes nonneg: "\<forall>p\<in>set (virtio_crypto_table s). eligible m s nd p \<longrightarrow> 0 \<le> load s p"
  shows "((\<exists>p\<in>set (virtio_crypto_table s). eligible m s nd p) \<longrightarrow>
            (\<exists>pre d post. virtio_crypto_table s = pre @ d # post \<and>
               fst (virtcrypto_get_dev_node m s nd) = Some d \<and> eligible m s nd d \<and>
               (\<forall>p\<in>set pre. eligible m s nd p \<longrightarrow> load s d < load s p) \<and>
               (\<forall>p\<in>set post. eligible m s nd p \<longrightarrow> load s d \<le> load s p))) \<and>
         ((\<forall>p\<in>set (virtio_crypto_table s). \<not> eligible m s nd p) \<and>
          (\<exists>p\<in>set (virtio_crypto_table s). is_started m s p) \<longrightarrow>
            (\<exists>pre d post. virtio_crypto_table s = pre @ d # post \<and>
               fst (virtcrypto_get_dev_node m s nd) = Some d \<and> is_started m s d \<and>
               (\<forall>p\<in>set pre. \<not> is_started m s p)))"
proof (intro conjI impI)
  let ?t = "virtio_crypto_table s"
  assume ex: "\<exists>p\<in>set ?t. eligible m s nd p"
  have lt: "ctr s p < - 1" if "p \<in> set ?t" "eligible m s nd p" for p
    using that nonneg by (simp add: ctr_def load_def scast_less_max)
  with ex have "\<exists>p\<in>set ?t. eligible m s nd p \<and> ctr s p < - 1" by blast
  with least_loaded_result [of ?t m s nd "- 1" None] obtain pre d post where
    h: "?t = pre @ d # post"
       "least_loaded m (objs s) nd ?t None (- 1) = Some d"
       "eligible m s nd d"
       "\<forall>p\<in>set pre. eligible m s nd p \<longrightarrow> ctr s d < ctr s p"
       "\<forall>p\<in>set post. eligible m s nd p \<longrightarrow> ctr s d \<le> ctr s p"
    by auto
  from h(2) have r: "fst (virtcrypto_get_dev_node m s nd) = Some d"
    by (simp add: fst_get_dev_node find_dev_node_def)
  from h(1,3) nonneg have d0: "0 \<le> sint (ref_count (objs s d))"
    by (simp add: load_def)
  have p0: "0 \<le> sint (ref_count (objs s p))" if "p \<in> set ?t" "eligible m s nd p" for p
    using that nonneg by (simp add: load_def)
  have a: "\<forall>p\<in>set pre. eligible m s nd p \<longrightarrow> load s d < load s p"
  proof (intro ballI impI)
    fix p assume p: "p \<in> set pre" "eligible m s nd p"
    with h(1) have "p \<in> set ?t" by simp
    then have "0 \<le> sint (ref_count (objs s p))" using p(2) by (rule p0)
    moreover from h(4) p have "ctr s d < ctr s p" by blast
    ultimately show "load s d < load s p"
      using d0 by (simp add: load_def ctr_def scast_less_iff)
  qed
  have b: "\<forall>p\<in>set post. eligible m s nd p \<longrightarrow> load s d \<le> load s p"
  proof (intro ballI impI)
    fix p assume p: "p \<in> set post" "eligible m s nd p"
    with h(1) have "p \<in> set ?t" by simp
    then have "0 \<le> sint (ref_count (objs s p))" using p(2) by (rule p0)
    moreover from h(5) p have "ctr s d \<le> ctr s p" by blast
    ultimately show "load s d \<le> load s p"
      using d0 by (simp add: load_def ctr_def scast_le_iff)
  qed
  from h(1) r h(3) a b
  show "\<exists>pre d post. ?t = pre @ d # post \<and>
               fst (virtcrypto_get_dev_node m s nd) = Some d \<and> eligible m s nd d \<and>
               (\<forall>p\<in>set pre. eligible m s nd p \<longrightarrow> load s d < load s p) \<and>
               (\<forall>p\<in>set post. eligible m s nd p \<longrightarrow> load s d \<le> load s p)"
    by blast
next
  let ?t = "virtio_crypto_table s"
  assume "(\<forall>p\<in>set ?t. \<not> eligible m s nd p) \<and> (\<exists>p\<in>set ?t. is_started m s p)"
  then have none: "\<forall>p\<in>set ?t. \<not> eligible m s nd p" and some: "\<exists>p\<in>set ?t. is_started m s p"
    by simp_all
  from none least_loaded_result [of ?t m s nd "- 1" None]
  have "least_loaded m (objs s) nd ?t None (- 1) = None" by (auto split: if_splits)
  then have f: "find_dev_node m s nd = any_started m (objs s) ?t"
    by (simp add: find_dev_node_def)
  from some have "any_started m (objs s) ?t \<noteq> None"
    by (simp add: any_started_None_iff)
  then obtain d where d: "any_started m (objs s) ?t = Some d" by blast
  from any_started_first [OF d] f d
  show "\<exists>pre d post. ?t = pre @ d # post \<and>
               fst (virtcrypto_get_dev_node m s nd) = Some d \<and> is_started m s d \<and>
               (\<forall>p\<in>set pre. \<not> is_started m s p)"
    by (auto simp: fst_get_dev_node)
qed

theorem get_dev_node_least_loaded_witness:
  "virtio_crypto_table pool3 = [4, 5, 6] \<and>
   eligible 2 pool3 0 4 \<and> \<not> eligible 2 pool3 0 5 \<and> eligible 2 pool3 0 6 \<and>
   load pool3 4 = 1 \<and> load pool3 6 = 0 \<and>
   fst (virtcrypto_get_dev_node 2 pool3 0) = Some 6 \<and>
   virtio_crypto_table started1 = [5] \<and>
   \<not> eligible 2 started1 0 5 \<and> is_started 2 started1 5 \<and>
   fst (virtcrypto_get_dev_node 2 started1 0) = Some 5"
proof -
  have t3: "virtio_crypto_table pool3 = [4, 5, 6]"
    by code_simp
  have l3: "load pool3 4 = 1" "load pool3 5 = 0" "load pool3 6 = 0"
    by (simp_all add: load_def pool3_def mgr0_def empty_mgr_def a_dev_def
        virtcrypto_devmgr_add_dev_def VIRTIO_CRYPTO_MAX_DEVICES_def
        virtcrypto_dev_start_def virtcrypto_dev_get_def atomic_add_return_def
        try_module_get_def)
  have e3: "eligible 2 pool3 0 4" "\<not> eligible 2 pool3 0 5" "eligible 2 pool3 0 6"
    by code_simp+
  have h: "\<forall>p\<in>set (virtio_crypto_table pool3). eligible 2 pool3 0 p \<longrightarrow> 0 \<le> load pool3 p"
    by (simp add: t3 l3)
  have e: "\<exists>p\<in>set (virtio_crypto_table pool3). eligible 2 pool3 0 p"
    using e3 by (simp add: t3)
  from get_dev_node_least_loaded [OF h] e obtain pre d post where
    c: "virtio_crypto_table pool3 = pre @ d # post"
       "fst (virtcrypto_get_dev_node 2 pool3 0) = Some d" "eligible 2 pool3 0 d"
       "\<forall>p\<in>set pre. eligible 2 pool3 0 p \<longrightarrow> load pool3 d < load pool3 p"
       "\<forall>p\<in>set post. eligible 2 pool3 0 p \<longrightarrow> load pool3 d \<le> load pool3 p"
    by blast
  from c(1) t3 have "pre = [] \<and> d = 4 \<and> post = [5, 6] \<or> pre = [4] \<and> d = 5 \<and> post = [6] \<or>
      pre = [4, 5] \<and> d = 6 \<and> post = []"
    by (auto simp: Cons_eq_append_conv)
  with c(3,5) e3 l3 have "d = 6" by auto
  with c(2) have r3: "fst (virtcrypto_get_dev_node 2 pool3 0) = Some 6" by simp
  have t1: "virtio_crypto_table started1 = [5]"
    by code_simp
  have e1: "\<not> eligible 2 started1 0 5" "is_started 2 started1 5"
    by code_simp+
  have n1: "\<forall>p\<in>set (virtio_crypto_table started1). \<not> eligible 2 started1 0 p"
    using e1 by (simp add: t1)
  then have h1: "\<forall>p\<in>set (virtio_crypto_table started1).
      eligible 2 started1 0 p \<longrightarrow> 0 \<le> load started1 p"
    by simp
  have s1: "\<exists>p\<in>set (virtio_crypto_table started1). is_started 2 started1 p"
    using e1 by (simp add: t1)
  from get_dev_node_least_loaded [OF h1] n1 s1 obtain pre' d' post' where
    c1: "virtio_crypto_table started1 = pre' @ d' # post'"
        "fst (virtcrypto_get_dev_node 2 started1 0) = Some d'"
    by blast
  from c1(1) t1 have "d' = 5" by (auto simp: Cons_eq_append_conv)
  with c1(2) have r1: "fst (virtcrypto_get_dev_node 2 started1 0) = Some 5" by simp
  from t3 e3 l3 r3 t1 e1 r1 show ?thesis by simp
qed

text \<open>
  The claim as it was stated, for every state, fails where an eligible device has a
  negative count. Such a state is reached through the manager's own calls: device 4 is
  selected for node 0, removed and registered again (which sets its count to 0) while
  the client still holds it, and then released, which leaves its count at -1. Read as
  \<open>unsigned long\<close> that count is \<open>~0\<close>, the first loop never takes it, and the
  selection for node 0 returns device 5 of node 1 although device 4 is eligible.
\<close>

theorem get_dev_node_skips_negative_count:
  "fst (virtcrypto_get_dev_node 2
     (snd (virtcrypto_dev_start 2 0
       (snd (virtcrypto_dev_start 2 0
         (snd (add_devs (mgr0 True) [5, 4])) 5)) 4)) 0) = Some 4 \<and>
   virtcrypto_devmgr_rm_dev held4 4 \<noteq> None \<and>
   fst (virtcrypto_devmgr_add_dev (the (virtcrypto_devmgr_rm_dev held4 4)) 4) = 0 \<and>
   virtio_crypto_table stale_release = [5, 4] \<and>
   eligible 2 stale_release 0 4 \<and> \<not> eligible 2 stale_release 0 5 \<and>
   load stale_release 4 = - 1 \<and>
   fst (virtcrypto_get_dev_node 2 stale_release 0) = Some 5"
  by code_simp

subsection \<open>Registry: ids and capacity\<close>

text \<open>
  The duplicate scan is list membership. Numbers up to the capacity are told apart by
  their 32-bit values.
\<close>

lemma table_has_iff: "table_has xs d = (d \<in> set xs)"
  by (induction xs) auto

lemma of_nat32_inj:
  "i \<le> 32 \<Longrightarrow> j \<le> 32 \<Longrightarrow> ((of_nat i :: 32 word) = of_nat j) = (i = j)"
  by (simp add: word_of_nat_eq_iff take_bit_nat_eq_self)

lemma unat_of_nat32: "k \<le> 32 \<Longrightarrow> unat (of_nat k :: 32 word) = k"
  by (simp add: unat_of_nat take_bit_nat_eq_self)

text \<open>
  The shape \<open>ids_in_order\<close> holds at load time and is kept by every add, whether it
  succeeds or not, and by the removal of the device at the tail of the table.
\<close>

lemma ids_in_order_empty: "ids_in_order (empty_mgr h live)"
  by (simp add: ids_in_order_def empty_mgr_def)

lemma add_dev_success:
  assumes "ids_in_order s" "d \<notin> set (virtio_crypto_table s)"
    "length (virtio_crypto_table s) < 32"
  shows "virtcrypto_devmgr_add_dev s d =
     (0, s\<lparr>objs := (objs s)(d := (objs s d)\<lparr>ref_count := 0, dev_id := num_devices s\<rparr>),
           virtio_crypto_table := virtio_crypto_table s @ [d],
           num_devices := num_devices s + 1\<rparr>)"
proof -
  from assms(1,3) have "num_devices s \<noteq> 32"
    using of_nat32_inj [of "length (virtio_crypto_table s)" 32]
    by (simp add: ids_in_order_def)
  with assms(2) show ?thesis
    by (simp add: virtcrypto_devmgr_add_dev_def VIRTIO_CRYPTO_MAX_DEVICES_def table_has_iff)
qed

lemma add_dev_zero:
  assumes "ids_in_order s" "fst (virtcrypto_devmgr_add_dev s d) = 0"
  shows "d \<notin> set (virtio_crypto_table s) \<and> length (virtio_crypto_table s) < 32"
proof -
  from assms(2) have a: "num_devices s \<noteq> 32" "d \<notin> set (virtio_crypto_table s)"
    by (auto simp: virtcrypto_devmgr_add_dev_def VIRTIO_CRYPTO_MAX_DEVICES_def table_has_iff
        EFAULT_def EEXIST_def split: if_splits)
  from assms(1) a(1) have "length (virtio_crypto_table s) \<noteq> 32"
    by (auto simp: ids_in_order_def)
  with assms(1) a(2) show ?thesis by (simp add: ids_in_order_def)
qed

lemma ids_in_order_added:
  assumes "ids_in_order s" "d \<notin> set (virtio_crypto_table s)"
    "length (virtio_crypto_table s) < 32"
  shows "ids_in_order (snd (virtcrypto_devmgr_add_dev s d))"
proof -
  let ?t = "virtio_crypto_table s"
  from assms(1) have m: "map (\<lambda>p. dev_id (objs s p)) ?t = map of_nat [0..<length ?t]"
    and n: "num_devices s = of_nat (length ?t)" and dt: "distinct ?t"
    by (simp_all add: ids_in_order_def)
  have "map (\<lambda>p. dev_id (((objs s)(d := (objs s d)\<lparr>ref_count := 0, dev_id := num_devices s\<rparr>)) p)) ?t
      = map (\<lambda>p. dev_id (objs s p)) ?t"
    using assms(2) by (intro map_cong) auto
  with m n dt assms(2,3) show ?thesis
    by (simp add: add_dev_success [OF assms] ids_in_order_def)
qed

lemma ids_in_order_add:
  assumes "ids_in_order s"
  shows "ids_in_order (snd (virtcrypto_devmgr_add_dev s d))"
proof (cases "fst (virtcrypto_devmgr_add_dev s d) = 0")
  case True
  with add_dev_zero [OF assms] ids_in_order_added [OF assms] show ?thesis by blast
next
  case False
  then have "snd (virtcrypto_devmgr_add_dev s d) = s"
    by (simp add: virtcrypto_devmgr_add_dev_def split: if_splits)
  with assms show ?thesis by simp
qed

lemma ids_in_order_rm_last:
  assumes "ids_in_order s" "virtio_crypto_table s \<noteq> []"
    "virtcrypto_devmgr_rm_dev s (last (virtio_crypto_table s)) = Some s1"
  shows "ids_in_order s1"
proof -
  let ?t = "virtio_crypto_table s"
  from assms(1) have m: "map (\<lambda>p. dev_id (objs s p)) ?t = map of_nat [0..<length ?t]"
    and n: "num_devices s = of_nat (length ?t)" and dt: "distinct ?t" and le: "length ?t \<le> 32"
    by (simp_all add: ids_in_order_def)
  from assms(2) have sn: "?t = butlast ?t @ [last ?t]" by simp
  with dt have r: "remove1 (last ?t) ?t = butlast ?t"
    by (metis distinct_append remove1_append remove1.simps(2) append_Nil2
        disjoint_iff list.set_intros(1))
  from assms(2,3) have s1: "s1 = s\<lparr>virtio_crypto_table := butlast ?t,
      num_devices := num_devices s - 1\<rparr>"
    by (simp add: virtcrypto_devmgr_rm_dev_def r)
  from assms(2) obtain k where k: "length ?t = Suc k" by (cases ?t) auto
  have "map (\<lambda>p. dev_id (objs s p)) (butlast ?t) = butlast (map (\<lambda>p. dev_id (objs s p)) ?t)"
    by (simp add: map_butlast)
  also have "\<dots> = butlast (map of_nat [0..<Suc k])"
    using m k by simp
  also have "\<dots> = map of_nat [0..<k]"
    by simp
  finally have "map (\<lambda>p. dev_id (objs s p)) (butlast ?t) = map of_nat [0..<k]" .
  with n dt le k show ?thesis
    by (simp add: s1 ids_in_order_def distinct_butlast)
qed

lemma run_ops_ids_in_order:
  "ids_in_order s \<Longrightarrow> tail_removals s ops \<Longrightarrow> run_ops s ops = Some s' \<Longrightarrow> ids_in_order s'"
proof (induction s ops rule: run_ops.induct)
  case (1 s)
  then show ?case by simp
next
  case (2 s d ops)
  then show ?case by (simp add: ids_in_order_add)
next
  case (3 s d ops)
  then show ?case
    by (auto split: option.splits dest: ids_in_order_rm_last)
qed

lemma add_devs_fresh:
  "ids_in_order s \<Longrightarrow> distinct ds \<Longrightarrow> set ds \<inter> set (virtio_crypto_table s) = {} \<Longrightarrow>
   length (virtio_crypto_table s) + length ds \<le> 32 \<Longrightarrow>
     fst (add_devs s ds) = replicate (length ds) 0 \<and>
     ids_in_order (snd (add_devs s ds)) \<and>
     virtio_crypto_table (snd (add_devs s ds)) = virtio_crypto_table s @ ds"
proof (induction ds arbitrary: s)
  case Nil
  then show ?case by simp
next
  case (Cons d ds)
  let ?s1 = "snd (virtcrypto_devmgr_add_dev s d)"
  from Cons.prems have d: "d \<notin> set (virtio_crypto_table s)" "length (virtio_crypto_table s) < 32"
    by auto
  note ok = add_dev_success [OF Cons.prems(1) d]
  from ok have t1: "virtio_crypto_table ?s1 = virtio_crypto_table s @ [d]" by simp
  have i1: "ids_in_order ?s1" using Cons.prems(1) by (rule ids_in_order_add)
  from Cons.prems t1 have "distinct ds" "set ds \<inter> set (virtio_crypto_table ?s1) = {}"
    "length (virtio_crypto_table ?s1) + length ds \<le> 32"
    by auto
  from Cons.IH [OF i1 this] ok t1 show ?case
    by (simp add: split_beta)
qed

text \<open>
  Claim C6. From the empty registry, registering the devices of any list without
  repetitions of at most 32 devices succeeds every time (each call returns 0), and the
  devices carry the ids 0, 1, 2, ... in the order they were registered, so the ids are
  pairwise different and strictly increasing. When 32 devices are registered, a further
  add of any device returns \<open>-EFAULT\<close> (the capacity error) and changes nothing.
\<close>

theorem add_devs_up_to_capacity:
  assumes "distinct ds" and "length ds \<le> 32"
  shows "fst (add_devs (empty_mgr h live) ds) = replicate (length ds) 0 \<and>
         map (\<lambda>d. unat (dev_id (objs (snd (add_devs (empty_mgr h live) ds)) d))) ds =
           [0..<length ds] \<and>
         (length ds = 32 \<longrightarrow>
            virtcrypto_devmgr_add_dev (snd (add_devs (empty_mgr h live) ds)) d =
              (- EFAULT, snd (add_devs (empty_mgr h live) ds)))"
proof -
  let ?s = "snd (add_devs (empty_mgr h live) ds)"
  have e: "virtio_crypto_table (empty_mgr h live) = []" by (simp add: empty_mgr_def)
  from add_devs_fresh [OF ids_in_order_empty, of ds h live] assms e
  have r: "fst (add_devs (empty_mgr h live) ds) = replicate (length ds) 0"
    and i: "ids_in_order ?s" and t: "virtio_crypto_table ?s = ds"
    by simp_all
  from i t have m: "map (\<lambda>d. dev_id (objs ?s d)) ds = map of_nat [0..<length ds]"
    by (simp add: ids_in_order_def)
  have "map (\<lambda>d. unat (dev_id (objs ?s d))) ds =
      map (unat :: 32 word \<Rightarrow> nat) (map (\<lambda>d. dev_id (objs ?s d)) ds)"
    by (simp add: comp_def)
  also have "\<dots> = map (\<lambda>k. unat (of_nat k :: 32 word)) [0..<length ds]"
    by (simp only: m map_map comp_def)
  also have "\<dots> = [0..<length ds]"
    using assms(2) by (intro map_idI) (simp add: unat_of_nat32)
  finally have ids: "map (\<lambda>d. unat (dev_id (objs ?s d))) ds = [0..<length ds]" .
  have "length ds = 32 \<longrightarrow> virtcrypto_devmgr_add_dev ?s d = (- EFAULT, ?s)"
    using i t by (simp add: ids_in_order_def virtcrypto_devmgr_add_dev_def
        VIRTIO_CRYPTO_MAX_DEVICES_def)
  with r ids show ?thesis by simp
qed

theorem add_devs_up_to_capacity_witness:
  "fst (add_devs (mgr0 True) [1..<33]) = replicate 32 0 \<and>
   map (\<lambda>d. unat (dev_id (objs full32 d))) [1..<33] = [0..<32] \<and>
   virtcrypto_devmgr_add_dev full32 77 = (- EFAULT, full32)"
proof -
  have d: "distinct [1..<33::nat]" and l: "length [1..<33::nat] \<le> 32"
    by simp_all
  from add_devs_up_to_capacity [OF d l, of "\<lambda>d. a_dev (int d mod 3 - 1)" "\<lambda>m. True" 77]
  show ?thesis
    unfolding mgr0_def full32_def by simp
qed

text \<open>A list without repetitions holds each of its elements once.\<close>

lemma count_list_distinct: "distinct xs \<Longrightarrow> d \<in> set xs \<Longrightarrow> count_list xs d = 1"
  by (induction xs) (auto simp: count_list_0_iff)

text \<open>
  Claim C7, as the code has it. For a device that is already in the table (a linked
  list holds a device at most once), add changes nothing and the table still holds
  the device exactly once. The error is \<open>-EEXIST\<close> unless the counter stands at the
  capacity limit: the capacity test runs first, and then the error is \<open>-EFAULT\<close>.
\<close>

theorem add_dev_present:
  assumes "d \<in> set (virtio_crypto_table s)" and "distinct (virtio_crypto_table s)"
  shows "snd (virtcrypto_devmgr_add_dev s d) = s \<and>
         count_list (virtio_crypto_table (snd (virtcrypto_devmgr_add_dev s d))) d = 1 \<and>
         fst (virtcrypto_devmgr_add_dev s d) =
           (if num_devices s = VIRTIO_CRYPTO_MAX_DEVICES then - EFAULT else - EEXIST)"
  using assms
  by (simp add: virtcrypto_devmgr_add_dev_def table_has_iff count_list_distinct)

theorem add_dev_present_witness:
  "5 \<in> set (virtio_crypto_table unstarted3) \<and> distinct (virtio_crypto_table unstarted3) \<and>
   num_devices unstarted3 = 3 \<and>
   snd (virtcrypto_devmgr_add_dev unstarted3 5) = unstarted3 \<and>
   count_list (virtio_crypto_table (snd (virtcrypto_devmgr_add_dev unstarted3 5))) 5 = 1 \<and>
   fst (virtcrypto_devmgr_add_dev unstarted3 5) = - EEXIST"
proof -
  have t: "virtio_crypto_table unstarted3 = [4, 5, 6]"
    by code_simp
  have n: "num_devices unstarted3 = 3"
    by code_simp
  have m: "5 \<in> set (virtio_crypto_table unstarted3)" and d: "distinct (virtio_crypto_table unstarted3)"
    by (simp_all add: t)
  note th = add_dev_present [OF m d]
  from th have a: "snd (virtcrypto_devmgr_add_dev unstarted3 5) = unstarted3"
    by (rule conjunct1)
  from th have b: "count_list (virtio_crypto_table (snd (virtcrypto_devmgr_add_dev unstarted3 5))) 5 = 1"
    by blast
  from th have "fst (virtcrypto_devmgr_add_dev unstarted3 5) =
      (if num_devices unstarted3 = VIRTIO_CRYPTO_MAX_DEVICES then - EFAULT else - EEXIST)"
    by blast
  then have c: "fst (virtcrypto_devmgr_add_dev unstarted3 5) = - EEXIST"
    by (simp add: n VIRTIO_CRYPTO_MAX_DEVICES_def)
  from m d n a b c show ?thesis by blast
qed

text \<open>
  The claim as it was stated fails on the full table: device 1 is registered, and add
  returns the capacity error, not \<open>-EEXIST\<close>.
\<close>

theorem add_dev_present_full_table:
  "1 \<in> set (virtio_crypto_table full32) \<and>
   fst (virtcrypto_devmgr_add_dev full32 1) = - EFAULT \<and>
   fst (virtcrypto_devmgr_add_dev full32 1) \<noteq> - EEXIST"
  by code_simp

text \<open>
  Claim C1, as the code has it. Start from the empty registry and run any sequence of
  adds and removes in which every remove takes out the device at the tail of the table
  (the one registered last among those present). Then a successful add gives the new
  device the current value of \<open>num_devices\<close>, and that id differs from the id of
  every device present in the table.
\<close>

theorem add_dev_fresh_id_tail_removals:
  assumes "tail_removals (empty_mgr h live) ops"
    and "run_ops (empty_mgr h live) ops = Some s"
    and "fst (virtcrypto_devmgr_add_dev s d) = 0"
  shows "dev_id (objs (snd (virtcrypto_devmgr_add_dev s d)) d) = num_devices s \<and>
         (\<forall>p\<in>set (virtio_crypto_table s).
            dev_id (objs (snd (virtcrypto_devmgr_add_dev s d)) p) \<noteq>
            dev_id (objs (snd (virtcrypto_devmgr_add_dev s d)) d))"
proof -
  let ?t = "virtio_crypto_table s"
  let ?s1 = "snd (virtcrypto_devmgr_add_dev s d)"
  have i: "ids_in_order s"
    using ids_in_order_empty assms(1,2) by (rule run_ops_ids_in_order)
  from add_dev_zero [OF i assms(3)] have d: "d \<notin> set ?t" "length ?t < 32" by simp_all
  note ok = add_dev_success [OF i d]
  from ok have new: "dev_id (objs ?s1 d) = num_devices s" by simp
  have "dev_id (objs ?s1 p) \<noteq> dev_id (objs ?s1 d)" if p: "p \<in> set ?t" for p
  proof -
    from p obtain k where k: "k < length ?t" "?t ! k = p" by (auto simp: in_set_conv_nth)
    from i have "map (\<lambda>p. dev_id (objs s p)) ?t ! k = map of_nat [0..<length ?t] ! k"
      by (simp add: ids_in_order_def)
    with k have "dev_id (objs s p) = of_nat k" by simp
    moreover from p d(1) have "p \<noteq> d" by auto
    ultimately have old: "dev_id (objs ?s1 p) = of_nat k" by (simp add: ok)
    from i have "num_devices s = of_nat (length ?t)" by (simp add: ids_in_order_def)
    with new old k(1) d(2) show ?thesis
      using of_nat32_inj [of k "length ?t"] by simp
  qed
  with new show ?thesis by blast
qed

theorem add_dev_fresh_id_tail_removals_witness:
  "tail_removals (mgr0 True) [Add_dev 1, Add_dev 2, Rm_dev 2, Add_dev 3] \<and>
   run_ops (mgr0 True) [Add_dev 1, Add_dev 2, Rm_dev 2, Add_dev 3] = Some after_tail_rm \<and>
   virtio_crypto_table after_tail_rm = [1, 3] \<and>
   fst (virtcrypto_devmgr_add_dev after_tail_rm 4) = 0 \<and>
   dev_id (objs (snd (virtcrypto_devmgr_add_dev after_tail_rm 4)) 4) = 2 \<and>
   dev_id (objs (snd (virtcrypto_devmgr_add_dev after_tail_rm 4)) 1) \<noteq>
     dev_id (objs (snd (virtcrypto_devmgr_add_dev after_tail_rm 4)) 4) \<and>
   dev_id (objs (snd (virtcrypto_devmgr_add_dev after_tail_rm 4)) 3) \<noteq>
     dev_id (objs (snd (virtcrypto_devmgr_add_dev after_tail_rm 4)) 4)"
proof -
  have t: "tail_removals (mgr0 True) [Add_dev 1, Add_dev 2, Rm_dev 2, Add_dev 3]"
    by code_simp
  have "run_ops (mgr0 True) [Add_dev 1, Add_dev 2, Rm_dev 2, Add_dev 3] \<noteq> None"
    by code_simp
  then have r: "run_ops (mgr0 True) [Add_dev 1, Add_dev 2, Rm_dev 2, Add_dev 3] = Some after_tail_rm"
    by (auto simp: after_tail_rm_def)
  have z: "fst (virtcrypto_devmgr_add_dev after_tail_rm 4) = 0"
    by code_simp
  have tb: "virtio_crypto_table after_tail_rm = [1, 3]"
    by code_simp
  have n: "num_devices after_tail_rm = 2"
    by code_simp
  note th = add_dev_fresh_id_tail_removals [OF t [unfolded mgr0_def] r [unfolded mgr0_def] z]
  from th have "dev_id (objs (snd (virtcrypto_devmgr_add_dev after_tail_rm 4)) 4) =
      num_devices after_tail_rm"
    by (rule conjunct1)
  then have a: "dev_id (objs (snd (virtcrypto_devmgr_add_dev after_tail_rm 4)) 4) = 2"
    using n by (rule trans)
  from th have "\<forall>p\<in>set [1, 3].
      dev_id (objs (snd (virtcrypto_devmgr_add_dev after_tail_rm 4)) p) \<noteq>
      dev_id (objs (snd (virtcrypto_devmgr_add_dev after_tail_rm 4)) 4)"
    unfolding tb by (rule conjunct2)
  then have b: "dev_id (objs (snd (virtcrypto_devmgr_add_dev after_tail_rm 4)) 1) \<noteq>
      dev_id (objs (snd (virtcrypto_devmgr_add_dev after_tail_rm 4)) 4)"
    "dev_id (objs (snd (virtcrypto_devmgr_add_dev after_tail_rm 4)) 3) \<noteq>
      dev_id (objs (snd (virtcrypto_devmgr_add_dev after_tail_rm 4)) 4)"
    by simp_all
  from t r tb z a b show ?thesis by blast
qed

text \<open>
  The claim as it was stated fails when a device other than the last is removed:
  after devices 1 and 2 are registered and 1 is removed, the counter is back at 1, and
  the add of device 3 gives it the id of device 2, which is still in the table.
\<close>

theorem add_dev_id_reused:
  "run_ops (mgr0 True) [Add_dev 1, Add_dev 2, Rm_dev 1] \<noteq> None \<and>
   virtio_crypto_table after_rm = [2] \<and>
   fst (virtcrypto_devmgr_add_dev after_rm 3) = 0 \<and>
   virtio_crypto_table (snd (virtcrypto_devmgr_add_dev after_rm 3)) = [2, 3] \<and>
   dev_id (objs (snd (virtcrypto_devmgr_add_dev after_rm 3)) 3) =
     dev_id (objs (snd (virtcrypto_devmgr_add_dev after_rm 3)) 2)"
  by code_simp

subsection \<open>Acquire and release\<close>

text \<open>What one acquire and one release do to the count, the owner and the trace.\<close>

lemma dev_get_step:
  "ref_count (objs (snd (virtcrypto_dev_get s d)) d) = ref_count (objs s d) + 1"
  "owner (objs (snd (virtcrypto_dev_get s d)) p) = owner (objs s p)"
  "module_live (snd (virtcrypto_dev_get s d)) = module_live s"
  "kcalls (snd (virtcrypto_dev_get s d)) =
     kcalls s @ (if ref_count (objs s d) + 1 = 1
                 then [Try_module_get (owner (objs s d)) (module_live s (owner (objs s d)))]
                 else [])"
  "fst (virtcrypto_dev_get s d) =
     (if ref_count (objs s d) + 1 = 1 \<and> \<not> module_live s (owner (objs s d)) then - EFAULT else 0)"
  by (simp_all add: virtcrypto_dev_get_def atomic_add_return_def try_module_get_def)

lemma dev_put_step:
  "ref_count (objs (virtcrypto_dev_put s d) d) = ref_count (objs s d) - 1"
  "owner (objs (virtcrypto_dev_put s d) p) = owner (objs s p)"
  "module_live (virtcrypto_dev_put s d) = module_live s"
  "kcalls (virtcrypto_dev_put s d) =
     kcalls s @ (if ref_count (objs s d) - 1 = 0 then [Module_put (owner (objs s d))] else [])"
  by (simp_all add: virtcrypto_dev_put_def atomic_sub_return_def module_put_def)

lemma steps_ref_trace:
  "steps a b (x # ref_trace s d ops) =
     (if x = a \<and> ref_count (objs s d) = b then 1 else 0) + steps a b (ref_trace s d ops)"
  by (cases "(s, d, ops)" rule: ref_trace.cases) simp_all

lemma run_refs_count:
  "ref_count (objs (snd (run_refs s d ops)) d) =
     ref_count (objs s d) + of_nat (length (filter (\<lambda>x. x = Dev_get) ops))
       - of_nat (length (filter (\<lambda>x. x = Dev_put) ops))"
proof (induction ops arbitrary: s)
  case Nil
  then show ?case by simp
next
  case (Cons x ops)
  show ?case
  proof (cases x)
    case Dev_get
    with Cons [of "snd (virtcrypto_dev_get s d)"] show ?thesis
      by (simp add: split_beta dev_get_step)
  next
    case Dev_put
    with Cons [of "virtcrypto_dev_put s d"] show ?thesis
      by (simp add: dev_put_step)
  qed
qed

lemma run_refs_pins:
  "\<forall>r\<in>set (fst (run_refs s d ops)). r = 0 \<Longrightarrow>
     pins_taken (owner (objs s d)) (kcalls (snd (run_refs s d ops))) =
       pins_taken (owner (objs s d)) (kcalls s) + steps 0 1 (ref_trace s d ops)"
proof (induction ops arbitrary: s)
  case Nil
  then show ?case by simp
next
  case (Cons x ops)
  show ?case
  proof (cases x)
    case Dev_get
    let ?s1 = "snd (virtcrypto_dev_get s d)"
    from Cons.prems Dev_get have z: "fst (virtcrypto_dev_get s d) = 0"
      and rest: "\<forall>r\<in>set (fst (run_refs ?s1 d ops)). r = 0"
      by (simp_all add: split_beta)
    from z have live: "ref_count (objs s d) + 1 = 1 \<longrightarrow> module_live s (owner (objs s d))"
      by (simp add: dev_get_step EFAULT_def split: if_splits)
    from Cons.IH [OF rest] live Dev_get show ?thesis
      by (simp add: split_beta dev_get_step steps_ref_trace pins_taken_def)
  next
    case Dev_put
    let ?s1 = "virtcrypto_dev_put s d"
    from Cons.prems Dev_put have "\<forall>r\<in>set (fst (run_refs ?s1 d ops)). r = 0"
      by simp
    from Cons.IH [OF this] Dev_put show ?thesis
      by (simp add: dev_put_step steps_ref_trace pins_taken_def)
  qed
qed

lemma run_refs_tries:
  "pins_tried (owner (objs s d)) (kcalls (snd (run_refs s d ops))) =
     pins_tried (owner (objs s d)) (kcalls s) + steps 0 1 (ref_trace s d ops)"
proof (induction ops arbitrary: s)
  case Nil
  then show ?case by simp
next
  case (Cons x ops)
  show ?case
  proof (cases x)
    case Dev_get
    with Cons [of "snd (virtcrypto_dev_get s d)"] show ?thesis
      by (simp add: split_beta dev_get_step steps_ref_trace pins_tried_def)
  next
    case Dev_put
    with Cons [of "virtcrypto_dev_put s d"] show ?thesis
      by (simp add: dev_put_step steps_ref_trace pins_tried_def)
  qed
qed

lemma run_refs_unpins:
  "pins_released (owner (objs s d)) (kcalls (snd (run_refs s d ops))) =
     pins_released (owner (objs s d)) (kcalls s) + steps 1 0 (ref_trace s d ops)"
proof (induction ops arbitrary: s)
  case Nil
  then show ?case by simp
next
  case (Cons x ops)
  show ?case
  proof (cases x)
    case Dev_get
    with Cons [of "snd (virtcrypto_dev_get s d)"] show ?thesis
      by (simp add: split_beta dev_get_step steps_ref_trace pins_released_def)
  next
    case Dev_put
    with Cons [of "virtcrypto_dev_put s d"] show ?thesis
      by (simp add: dev_put_step steps_ref_trace pins_released_def)
  qed
qed

text \<open>
  Claim C8, as the code has it. Take any device and any sequence of acquires and
  releases of it with as many acquires as releases (every paired order is one). Then
  \<open>ref_count\<close> is back at its value before the sequence; the kernel was asked to
  pin the owning module as many times as the count stepped from 0 to 1, and the module
  was unpinned as many times as the count stepped from 1 to 0; and when every acquire
  of the sequence succeeded, each of these pins was taken.
\<close>

theorem get_put_paired:
  assumes "length (filter (\<lambda>x. x = Dev_get) ops) = length (filter (\<lambda>x. x = Dev_put) ops)"
  shows "ref_count (objs (snd (run_refs s d ops)) d) = ref_count (objs s d) \<and>
         pins_tried (owner (objs s d)) (kcalls (snd (run_refs s d ops))) =
           pins_tried (owner (objs s d)) (kcalls s) + steps 0 1 (ref_trace s d ops) \<and>
         pins_released (owner (objs s d)) (kcalls (snd (run_refs s d ops))) =
           pins_released (owner (objs s d)) (kcalls s) + steps 1 0 (ref_trace s d ops) \<and>
         ((\<forall>r\<in>set (fst (run_refs s d ops)). r = 0) \<longrightarrow>
            pins_taken (owner (objs s d)) (kcalls (snd (run_refs s d ops))) =
              pins_taken (owner (objs s d)) (kcalls s) + steps 0 1 (ref_trace s d ops))"
  using assms run_refs_pins [of s d ops]
  by (simp add: run_refs_count run_refs_tries run_refs_unpins)

theorem get_put_paired_witness:
  "fst (run_refs (mgr0 True) 5 paired_ops) = [0, 0, 0] \<and>
   ref_trace (mgr0 True) 5 paired_ops = [0, 1, 2, 1, 0, 1, 0] \<and>
   ref_count (objs (snd (run_refs (mgr0 True) 5 paired_ops)) 5) = 0 \<and>
   pins_tried 7 (kcalls (snd (run_refs (mgr0 True) 5 paired_ops))) = 2 \<and>
   pins_taken 7 (kcalls (snd (run_refs (mgr0 True) 5 paired_ops))) = 2 \<and>
   pins_released 7 (kcalls (snd (run_refs (mgr0 True) 5 paired_ops))) = 2"
proof -
  have r: "fst (run_refs (mgr0 True) 5 paired_ops) = [0, 0, 0]"
    by code_simp
  then have h1: "\<forall>r\<in>set (fst (run_refs (mgr0 True) 5 paired_ops)). r = 0"
    by simp
  have h2: "length (filter (\<lambda>x. x = Dev_get) paired_ops) =
      length (filter (\<lambda>x. x = Dev_put) paired_ops)"
    by (simp add: paired_ops_def)
  have tr: "ref_trace (mgr0 True) 5 paired_ops = [0, 1, 2, 1, 0, 1, 0]"
    by code_simp
  have s0: "ref_count (objs (mgr0 True) 5) = 0" "owner (objs (mgr0 True) 5) = 7"
    "kcalls (mgr0 True) = []"
    by (simp_all add: mgr0_def empty_mgr_def a_dev_def)
  have st: "steps 0 1 [0, 1, 2, 1, 0, 1, 0 :: 32 word] = 2"
    "steps 1 0 [0, 1, 2, 1, 0, 1, 0 :: 32 word] = 2"
    by simp_all
  note th = get_put_paired [OF h2, of "mgr0 True" 5, unfolded s0 tr st]
  from th have a: "ref_count (objs (snd (run_refs (mgr0 True) 5 paired_ops)) 5) = 0"
    by (rule conjunct1)
  from th have b: "pins_tried 7 (kcalls (snd (run_refs (mgr0 True) 5 paired_ops))) = 2"
    by (simp add: pins_tried_def)
  from th have c: "pins_released 7 (kcalls (snd (run_refs (mgr0 True) 5 paired_ops))) = 2"
    by (simp add: pins_released_def)
  from th h1 have e: "pins_taken 7 (kcalls (snd (run_refs (mgr0 True) 5 paired_ops))) = 2"
    by (simp add: pins_taken_def)
  from r tr a b c e show ?thesis by blast
qed

text \<open>
  The claim as it was stated fails when the kernel refuses the pin: one acquire and
  one release of a device whose module cannot be pinned step the count from 0 to 1 and
  back, the acquire returns \<open>-EFAULT\<close>, no pin is taken, and the release still
  unpins the module once.
\<close>

theorem get_put_pin_refused:
  "fst (run_refs (mgr0 False) 5 [Dev_get, Dev_put]) = [- EFAULT] \<and>
   ref_trace (mgr0 False) 5 [Dev_get, Dev_put] = [0, 1, 0] \<and>
   steps 0 1 (ref_trace (mgr0 False) 5 [Dev_get, Dev_put]) = 1 \<and>
   owner (objs (mgr0 False) 5) = 7 \<and>
   kcalls (snd (run_refs (mgr0 False) 5 [Dev_get, Dev_put])) =
     [Try_module_get 7 False, Module_put 7] \<and>
   pins_taken 7 (kcalls (snd (run_refs (mgr0 False) 5 [Dev_get, Dev_put]))) = 0 \<and>
   pins_released 7 (kcalls (snd (run_refs (mgr0 False) 5 [Dev_get, Dev_put]))) = 1"
  by code_simp

end
